theory Spec2Isabelle
  imports Main "HOL-Library.Word"
begin

section \<open>The request context\<close>

text \<open>
  Modelled from the spec: the class \<^verbatim>\<open>context\<close> of \<^verbatim>\<open>cuehttp/context.hpp\<close> is not part of
  \<^verbatim>\<open>router.hpp\<close>. The router only uses the interface the specification lists:
  \<^verbatim>\<open>method()\<close>, \<^verbatim>\<open>path()\<close>, \<^verbatim>\<open>status()\<close> (404 is the "unhandled" sentinel), the setter
  \<^verbatim>\<open>status(unsigned)\<close> and \<^verbatim>\<open>redirect(destination)\<close>, which sets the target of the
  redirection. The record is extensible: the \<open>more\<close> part stands for every other piece
  of state a handler can reach.  No arithmetic is done on the status, so it is a \<open>nat\<close>.
\<close>

record http_context =
  http_method :: string
  path :: string
  status :: nat
  redirect_target :: string

text \<open>Modelled from the spec: \<^verbatim>\<open>ctx.status(s)\<close> sets the status.\<close>

definition ctx_status :: "nat \<Rightarrow> 'x http_context_scheme \<Rightarrow> 'x http_context_scheme" where
  "ctx_status s c = c\<lparr>status := s\<rparr>"

text \<open>Modelled from the spec: \<^verbatim>\<open>ctx.redirect(d)\<close> sets the redirect target.\<close>

definition ctx_redirect :: "string \<Rightarrow> 'x http_context_scheme \<Rightarrow> 'x http_context_scheme" where
  "ctx_redirect d c = c\<lparr>redirect_target := d\<rparr>"


section \<open>Handlers and continuations\<close>

text \<open>
  A canonical handler is a callable \<^verbatim>\<open>void(context&, std::function<void()>)\<close>. Its body is
  user code; what the router can observe of it is a finite tree of three kinds of steps:
  it changes the context (\<open>Upd\<close>), it calls the continuation it was given (\<open>Next\<close>), or it
  tests the context and goes on one way or the other (\<open>Cond\<close>); \<open>Done\<close> is the return.
  Handlers that throw or do not return are outside this model.
\<close>

datatype 'c prog =
    Done
  | Upd "'c \<Rightarrow> 'c" "'c prog"
  | Next "'c prog"
  | Cond "'c \<Rightarrow> bool" "'c prog" "'c prog"

text \<open>
  \<^verbatim>\<open>handlers[index]\<close> on a \<^verbatim>\<open>std::vector\<close> with \<^verbatim>\<open>index >= size()\<close> is undefined behaviour;
  the model stops there with an error.
\<close>

datatype error = Out_of_range

text \<open>
  The state of one run of a composed handler: the local \<^verbatim>\<open>index\<close> of \<^verbatim>\<open>compose\<close>
  (captured by reference by \<^verbatim>\<open>next\<close>), the context, and a history variable \<open>trace\<close>
  that records the position of every handler of the vector at the moment it is invoked.
  The trace is never read by the model. The cursor is a \<open>nat\<close>: a \<^verbatim>\<open>std::size_t\<close> would
  wrap only after more increments than a vector has positions, and the first increment
  past the size already ends the run below.
\<close>

record 'c exec_state =
  cursor :: nat
  ctx :: 'c
  trace :: "nat list"

text \<open>
  The two continuations of the source: the empty lambda \<^verbatim>\<open>[]() {}\<close>, and the closure
  \<^verbatim>\<open>next\<close> of \<^verbatim>\<open>compose\<close> over the vector of handlers.
\<close>

datatype 'c continuation = Noop | Advance "'c prog list"

fun bound :: "'c continuation \<Rightarrow> nat" where
  "bound Noop = 0"
| "bound (Advance handlers) = length handlers"

text \<open>
  \<open>exec k p s\<close> runs the handler body \<open>p\<close> with continuation \<open>k\<close>;
  \<open>call_next k s\<close> is a call of the continuation. For \<open>Advance\<close> it is lines 350--355:
  \<^verbatim>\<open>if (++index == handlers.size()) return; handlers[index](ctx, next);\<close>
\<close>

function exec :: "'c continuation \<Rightarrow> 'c prog \<Rightarrow> 'c exec_state \<Rightarrow> error + 'c exec_state"
  and call_next :: "'c continuation \<Rightarrow> 'c exec_state \<Rightarrow> error + 'c exec_state"
where
  "exec k Done s = Inr s"
| "exec k (Upd f p) s = exec k p (s\<lparr>ctx := f (ctx s)\<rparr>)"
| "exec k (Next p) s = (case call_next k s of Inl e \<Rightarrow> Inl e | Inr s' \<Rightarrow> exec k p s')"
| "exec k (Cond b p q) s = (if b (ctx s) then exec k p s else exec k q s)"
| "call_next Noop s = Inr s"
| "call_next (Advance handlers) s =
     (let index = Suc (cursor s) in
      if index = length handlers then Inr (s\<lparr>cursor := index\<rparr>)
      else if index < length handlers
        then exec (Advance handlers) (handlers ! index)
               (s\<lparr>cursor := index, trace := trace s @ [index]\<rparr>)
      else Inl Out_of_range)"
  by pat_completeness auto

definition exec_measure ::
  "'c continuation \<times> 'c prog \<times> 'c exec_state + 'c continuation \<times> 'c exec_state \<Rightarrow> nat \<times> nat" where
  "exec_measure x = (case x of Inl (k, p, s) \<Rightarrow> (bound k - cursor s, size p)
                             | Inr (k, s) \<Rightarrow> (bound k - cursor s, 0))"

text \<open>\<^verbatim>\<open>func(ctx, []() {})\<close>: a handler called with the empty continuation.\<close>

definition call_with_noop :: "'c prog \<Rightarrow> 'c \<Rightarrow> error + 'c" where
  "call_with_noop func c = map_sum id ctx (exec Noop func \<lparr>cursor = 0, ctx = c, trace = []\<rparr>)"


section \<open>Handler shapes and their normalisation\<close>

text \<open>
  The shapes \<^verbatim>\<open>register_impl\<close> and \<^verbatim>\<open>register_multiple\<close> are overloaded on: a callable
  with continuation, a callable without, and a member function of a class \<open>T\<close> of either
  shape, with an instance pointer (\<open>None\<close> is the null pointer) or without one.
  A member function is a function of the instance. \<open>Td\<close> below is \<^verbatim>\<open>T{}\<close>, the
  default-constructed instance.
\<close>

datatype ('c, 't) handler =
    Middleware "'c prog"
  | Middleware_without_next "'c \<Rightarrow> 'c"
  | Member "'t \<Rightarrow> 'c prog" "'t option"
  | Member_unbound "'t \<Rightarrow> 'c prog"
  | Member_without_next "'t \<Rightarrow> 'c \<Rightarrow> 'c" "'t option"
  | Member_without_next_unbound "'t \<Rightarrow> 'c \<Rightarrow> 'c"

text \<open>
  The closure \<^verbatim>\<open>register_multiple\<close> pushes for a handler that is followed by others
  (lines 142--148, 157--166, 178--188, 190--195, 197--208, 210--218).
\<close>

fun wrap :: "'t \<Rightarrow> ('c, 't) handler \<Rightarrow> 'c prog" where
  "wrap Td (Middleware func) = func"
| "wrap Td (Middleware_without_next func) = Upd func (Next Done)"
| "wrap Td (Member func self) = (case self of Some t \<Rightarrow> func t | None \<Rightarrow> Done)"
| "wrap Td (Member_unbound func) = func Td"
| "wrap Td (Member_without_next func self) =
     (case self of Some t \<Rightarrow> Upd (func t) (Next Done) | None \<Rightarrow> Next Done)"
| "wrap Td (Member_without_next_unbound func) = Upd (func Td) (Next Done)"

text \<open>
  The closure pushed for the last handler (lines 150--155, 168--176, 220--228, 230--234,
  236--244, 246--250): the two closures for a member function without continuation do not
  call \<^verbatim>\<open>next\<close> here.
\<close>

fun wrap_last :: "'t \<Rightarrow> ('c, 't) handler \<Rightarrow> 'c prog" where
  "wrap_last Td (Middleware func) = func"
| "wrap_last Td (Middleware_without_next func) = Upd func (Next Done)"
| "wrap_last Td (Member func self) = (case self of Some t \<Rightarrow> func t | None \<Rightarrow> Done)"
| "wrap_last Td (Member_unbound func) = func Td"
| "wrap_last Td (Member_without_next func self) =
     (case self of Some t \<Rightarrow> Upd (func t) Done | None \<Rightarrow> Done)"
| "wrap_last Td (Member_without_next_unbound func) = Upd (func Td) Done"

text \<open>
  \<^verbatim>\<open>register_multiple(handlers, func, args...)\<close>. No overload takes zero handlers, so the
  first equation is never reached from \<open>register_impl\<close>.
\<close>

fun register_multiple :: "'t \<Rightarrow> 'c prog list \<Rightarrow> ('c, 't) handler list \<Rightarrow> 'c prog list" where
  "register_multiple Td handlers [] = handlers"
| "register_multiple Td handlers [func] = handlers @ [wrap_last Td func]"
| "register_multiple Td handlers (func # args) =
     register_multiple Td (handlers @ [wrap Td func]) args"


section \<open>The router\<close>

text \<open>
  The two data members \<^verbatim>\<open>prefix_\<close> and \<^verbatim>\<open>handlers_\<close>; a name cannot end with an underscore
  here, hence the suffix.
\<close>

record 'c router =
  prefix_m :: string
  handlers_m :: "string \<Rightarrow> ('c \<Rightarrow> error + 'c) option"

definition router_default :: "'c router" where
  "router_default = \<lparr>prefix_m = '''', handlers_m = Map.empty\<rparr>"

definition router_with_prefix :: "string \<Rightarrow> 'c router" where
  "router_with_prefix p = \<lparr>prefix_m = p, handlers_m = Map.empty\<rparr>"

definition prefix :: "string \<Rightarrow> 'c router \<Rightarrow> 'c router" where
  "prefix p r = r\<lparr>prefix_m := p\<rparr>"

text \<open>\<^verbatim>\<open>std::unordered_map::emplace\<close>: inserts only if the key has no entry yet.\<close>

definition emplace :: "('k \<Rightarrow> 'v option) \<Rightarrow> 'k \<Rightarrow> 'v \<Rightarrow> ('k \<Rightarrow> 'v option)" where
  "emplace m k v = (case m k of None \<Rightarrow> m(k \<mapsto> v) | Some _ \<Rightarrow> m)"

text \<open>The body of the lambda \<^verbatim>\<open>handler\<close> of \<^verbatim>\<open>compose\<close> (lines 340--359).\<close>

definition run_chain :: "'c prog list \<Rightarrow> 'c \<Rightarrow> error + 'c exec_state" where
  "run_chain handlers c =
     (if handlers = [] then Inr \<lparr>cursor = 0, ctx = c, trace = []\<rparr>
      else if length handlers = 1
        then exec Noop (handlers ! 0) \<lparr>cursor = 0, ctx = c, trace = [0]\<rparr>
      else exec (Advance handlers) (handlers ! 0) \<lparr>cursor = 0, ctx = c, trace = [0]\<rparr>)"

definition compose :: "string \<Rightarrow> string \<Rightarrow> 'c prog list \<Rightarrow> 'c router \<Rightarrow> 'c router" where
  "compose method' path' handlers r =
     r\<lparr>handlers_m := emplace (handlers_m r) (method' @ ''+'' @ prefix_m r @ path')
                       (\<lambda>c. map_sum id ctx (run_chain handlers c))\<rparr>"

definition register_with_next :: "string \<Rightarrow> string \<Rightarrow> 'c prog \<Rightarrow> 'c router \<Rightarrow> 'c router" where
  "register_with_next method' path' func r =
     r\<lparr>handlers_m := emplace (handlers_m r) (method' @ ''+'' @ prefix_m r @ path')
                       (\<lambda>c. call_with_noop func c)\<rparr>"

definition register_with_next_member ::
  "'t \<Rightarrow> string \<Rightarrow> string \<Rightarrow> ('t \<Rightarrow> 'c prog) \<Rightarrow> 't option \<Rightarrow> 'c router \<Rightarrow> 'c router" where
  "register_with_next_member Td method' path' func self r =
     r\<lparr>handlers_m := emplace (handlers_m r) (method' @ ''+'' @ prefix_m r @ path')
                       (\<lambda>c. case self of Some t \<Rightarrow> call_with_noop (func t) c
                                        | None \<Rightarrow> call_with_noop (func Td) c)\<rparr>"

definition register_without_next :: "string \<Rightarrow> string \<Rightarrow> ('c \<Rightarrow> 'c) \<Rightarrow> 'c router \<Rightarrow> 'c router" where
  "register_without_next method' path' func r =
     r\<lparr>handlers_m := emplace (handlers_m r) (method' @ ''+'' @ prefix_m r @ path')
                       (\<lambda>c. Inr (func c))\<rparr>"

definition register_without_next_member ::
  "'t \<Rightarrow> string \<Rightarrow> string \<Rightarrow> ('t \<Rightarrow> 'c \<Rightarrow> 'c) \<Rightarrow> 't option \<Rightarrow> 'c router \<Rightarrow> 'c router" where
  "register_without_next_member Td method' path' func self r =
     r\<lparr>handlers_m := emplace (handlers_m r) (method' @ ''+'' @ prefix_m r @ path')
                       (\<lambda>c. case self of Some t \<Rightarrow> Inr (func t c)
                                        | None \<Rightarrow> Inr (func Td c))\<rparr>"

text \<open>
  \<^verbatim>\<open>register_impl\<close>: the overloads for one handler (lines 252--286) go to
  \<^verbatim>\<open>register_with_next\<close> or \<^verbatim>\<open>register_without_next\<close>, a member function without an
  instance with the null pointer; the variadic ones (lines 101--140) normalise all
  handlers and compose them.
\<close>

definition register_impl ::
  "'t \<Rightarrow> string \<Rightarrow> string \<Rightarrow> ('c, 't) handler \<Rightarrow> ('c, 't) handler list \<Rightarrow> 'c router \<Rightarrow> 'c router" where
  "register_impl Td method' path' func args r =
     (if args = [] then
        (case func of
           Middleware f \<Rightarrow> register_with_next method' path' f r
         | Member f self \<Rightarrow> register_with_next_member Td method' path' f self r
         | Member_unbound f \<Rightarrow> register_with_next_member Td method' path' f None r
         | Middleware_without_next f \<Rightarrow> register_without_next method' path' f r
         | Member_without_next f self \<Rightarrow> register_without_next_member Td method' path' f self r
         | Member_without_next_unbound f \<Rightarrow> register_without_next_member Td method' path' f None r)
      else compose method' path' (register_multiple Td [] (func # args)) r)"

definition del :: "'t \<Rightarrow> string \<Rightarrow> ('c, 't) handler \<Rightarrow> ('c, 't) handler list \<Rightarrow> 'c router \<Rightarrow> 'c router" where
  "del Td path' func args r = register_impl Td ''DEL'' path' func args r"

definition get :: "'t \<Rightarrow> string \<Rightarrow> ('c, 't) handler \<Rightarrow> ('c, 't) handler list \<Rightarrow> 'c router \<Rightarrow> 'c router" where
  "get Td path' func args r = register_impl Td ''GET'' path' func args r"

definition head :: "'t \<Rightarrow> string \<Rightarrow> ('c, 't) handler \<Rightarrow> ('c, 't) handler list \<Rightarrow> 'c router \<Rightarrow> 'c router" where
  "head Td path' func args r = register_impl Td ''HEAD'' path' func args r"

definition post :: "'t \<Rightarrow> string \<Rightarrow> ('c, 't) handler \<Rightarrow> ('c, 't) handler list \<Rightarrow> 'c router \<Rightarrow> 'c router" where
  "post Td path' func args r = register_impl Td ''POST'' path' func args r"

definition put :: "'t \<Rightarrow> string \<Rightarrow> ('c, 't) handler \<Rightarrow> ('c, 't) handler list \<Rightarrow> 'c router \<Rightarrow> 'c router" where
  "put Td path' func args r = register_impl Td ''PUT'' path' func args r"

definition methods :: "string list" where
  "methods = [''DEL'', ''GET'', ''HEAD'', ''POST'', ''PUT'']"

text \<open>
  \<^verbatim>\<open>all\<close> registers under each method in turn (lines 84--86), and forwards the same
  arguments to each of the five registrations. Every registration builds its stored
  callable from the argument it is given, so an argument passed as an rvalue has been
  moved from when the next method is reached. A closure in HOL has no state to move, so
  the caller says what an argument is once it was moved from: \<open>moved\<close> is the identity for
  an argument passed as an lvalue, for a pointer to a function or to a member function
  with its instance pointer, and for a closure whose captures are trivially copyable.
\<close>

fun all_loop ::
  "'t \<Rightarrow> (('c, 't) handler \<Rightarrow> ('c, 't) handler) \<Rightarrow> string list \<Rightarrow> string \<Rightarrow>
   ('c, 't) handler \<Rightarrow> ('c, 't) handler list \<Rightarrow> 'c router \<Rightarrow> 'c router" where
  "all_loop Td moved [] path' func args r = r"
| "all_loop Td moved (method' # ms) path' func args r =
     all_loop Td moved ms path' (moved func) (map moved args)
       (register_impl Td method' path' func args r)"

definition all ::
  "'t \<Rightarrow> (('c, 't) handler \<Rightarrow> ('c, 't) handler) \<Rightarrow> string \<Rightarrow>
   ('c, 't) handler \<Rightarrow> ('c, 't) handler list \<Rightarrow> 'c router \<Rightarrow> 'c router" where
  "all Td moved path' func args r = all_loop Td moved methods path' func args r"

text \<open>
  The destination \<^verbatim>\<open>redirect_impl\<close> captures by \<^verbatim>\<open>destination = std::forward<Destination>(destination)\<close>
  has the decayed type of the argument: a \<^verbatim>\<open>const char*\<close> for a string literal, which a
  move copies, or a \<^verbatim>\<open>std::string\<close>, which a move takes the characters out of. The
  standard leaves a moved-from \<^verbatim>\<open>std::string\<close> valid but unspecified; the common
  libraries leave it empty, and so does the model.
\<close>

datatype destination = Chars string | Std_string string

fun chars_of :: "destination \<Rightarrow> string" where
  "chars_of (Chars s) = s"
| "chars_of (Std_string s) = s"

fun moved_from :: "destination \<Rightarrow> destination" where
  "moved_from (Chars s) = Chars s"
| "moved_from (Std_string s) = Std_string ''''"

text \<open>
  The lambda of lines 332--335. Its call operator is const, so
  \<^verbatim>\<open>ctx.redirect(std::move(destination))\<close> copies the captured destination and a call leaves
  the closure as it was. The status is an \<^verbatim>\<open>unsigned\<close>, 32 bits wide.
\<close>

definition redirect_handler :: "destination \<Rightarrow> 32 word \<Rightarrow> ('x http_context_scheme, 't) handler" where
  "redirect_handler destination status' =
     Middleware_without_next (\<lambda>c. ctx_status (unat status') (ctx_redirect (chars_of destination) c))"

text \<open>
  \<^verbatim>\<open>redirect_impl\<close> (lines 330--336) passes the lambda to \<^verbatim>\<open>all\<close> as an rvalue: after the
  first registration the closure that is forwarded again holds the moved-from destination.
\<close>

definition redirect_impl ::
  "'t \<Rightarrow> string \<Rightarrow> destination \<Rightarrow> 32 word \<Rightarrow> 'x http_context_scheme router \<Rightarrow> 'x http_context_scheme router" where
  "redirect_impl Td path' destination status' r =
     all Td (\<lambda>h. redirect_handler (moved_from destination) status')
       path' (redirect_handler destination status') [] r"

definition redirect_impl_default ::
  "'t \<Rightarrow> string \<Rightarrow> destination \<Rightarrow> 'x http_context_scheme router \<Rightarrow> 'x http_context_scheme router" where
  "redirect_impl_default Td path' destination r = redirect_impl Td path' destination 301 r"

text \<open>The dispatcher returned by \<^verbatim>\<open>routes()\<close> (lines 363--377).\<close>

definition make_routes ::
  "'x http_context_scheme router \<Rightarrow> 'x http_context_scheme \<Rightarrow> error + 'x http_context_scheme" where
  "make_routes r c =
     (if status c \<noteq> 404 then Inr c
      else let key = http_method c @ ''+'' @ prefix_m r @ path c in
           case handlers_m r key of
             Some h \<Rightarrow> h c
           | None \<Rightarrow> Inr c)"

definition routes ::
  "'x http_context_scheme router \<Rightarrow> 'x http_context_scheme \<Rightarrow> error + 'x http_context_scheme" where
  "routes r = make_routes r"

text \<open>
  A property of a handler body, used to state the claims: on every path through the
  body the continuation is called exactly \<open>n\<close> times.
\<close>

fun calls_next :: "nat \<Rightarrow> 'c prog \<Rightarrow> bool" where
  "calls_next n Done = (n = 0)"
| "calls_next n (Upd f p) = calls_next n p"
| "calls_next n (Next p) = (case n of 0 \<Rightarrow> False | Suc m \<Rightarrow> calls_next m p)"
| "calls_next n (Cond b p q) = (calls_next n p \<and> calls_next n q)"

text \<open>On every path through the body the continuation is called at most \<open>n\<close> times.\<close>

fun calls_at_most :: "nat \<Rightarrow> 'c prog \<Rightarrow> bool" where
  "calls_at_most n Done = True"
| "calls_at_most n (Upd f p) = calls_at_most n p"
| "calls_at_most n (Next p) = (case n of 0 \<Rightarrow> False | Suc m \<Rightarrow> calls_at_most m p)"
| "calls_at_most n (Cond b p q) = (calls_at_most n p \<and> calls_at_most n q)"

text \<open>
  What a handler body does to the context when each call of its continuation returns at
  once and changes nothing: the updates of the path taken, in order, each applied once.
\<close>

fun body_effect :: "'c prog \<Rightarrow> 'c \<Rightarrow> 'c" where
  "body_effect Done c = c"
| "body_effect (Upd f p) c = body_effect p (f c)"
| "body_effect (Next p) c = body_effect p c"
| "body_effect (Cond b p q) c = (if b c then body_effect p c else body_effect q c)"


section \<open>Termination of the interpreter\<close>

lemma cursor_mono_dom:
  "exec_call_next_dom (Inl (k, p, s)) \<Longrightarrow> exec k p s = Inr s' \<Longrightarrow> cursor s \<le> cursor s'"
  "exec_call_next_dom (Inr (k, s)) \<Longrightarrow> call_next k s = Inr s' \<Longrightarrow> cursor s \<le> cursor s'"
proof (induction k p s and k s arbitrary: s' and s' rule: exec_call_next.pinduct)
  case (1 k s)
  then show ?case by (simp add: exec.psimps)
next
  case (2 k f p s)
  then show ?case by (fastforce simp: exec.psimps)
next
  case (3 k p s)
  from 3(1,4) obtain s1 where a: "call_next k s = Inr s1" and b: "exec k p s1 = Inr s'"
    by (auto simp: exec.psimps split: sum.splits)
  from 3(2)[OF a] 3(3)[OF a b] show ?case by simp
next
  case (4 k b p q s)
  then show ?case by (auto simp: exec.psimps split: if_splits)
next
  case (5 s)
  then show ?case by (simp add: call_next.psimps)
next
  case (6 handlers s)
  show ?case
  proof (cases "Suc (cursor s) = length handlers")
    case True
    with 6(1,3) show ?thesis by (auto simp: call_next.psimps)
  next
    case False
    with 6(1,3) have lt: "Suc (cursor s) < length handlers"
      and e: "exec (Advance handlers) (handlers ! Suc (cursor s))
               (s\<lparr>cursor := Suc (cursor s), trace := trace s @ [Suc (cursor s)]\<rparr>) = Inr s'"
      by (auto simp: call_next.psimps Let_def split: if_splits)
    from 6(2)[OF refl False lt e] show ?thesis by simp
  qed
qed

text \<open>
  Every call of the continuation that enters a handler has moved the cursor closer to the
  end of the vector, and the cursor never goes back: the interpreter is total.
\<close>

termination exec
proof (relation "inv_image (less_than <*lex*> less_than) exec_measure")
  fix k :: "'c continuation" and p s s'
  assume "call_next k s = Inr s'" "exec_call_next_dom (Inr (k, s))"
  then have "cursor s \<le> cursor s'" by (simp add: cursor_mono_dom)
  then show "(Inl (k, p, s'), Inl (k, Next p, s)) \<in> inv_image (less_than <*lex*> less_than) exec_measure"
    by (auto simp: exec_measure_def)
qed (auto simp: exec_measure_def)


section \<open>A handler called with the empty continuation\<close>

lemma exec_noop_effect:
  "exec Noop p s = Inr (s\<lparr>ctx := body_effect p (ctx s)\<rparr>)"
  by (induction p arbitrary: s) simp_all

lemma call_with_noop_effect:
  "call_with_noop p c = Inr (body_effect p c)"
  by (simp add: call_with_noop_def exec_noop_effect)


section \<open>The route table\<close>

lemma emplace_twice: "emplace m k v' = m' \<Longrightarrow> emplace m' k w = m'"
  by (auto simp: emplace_def split: option.splits)

lemma register_impl_shape:
  "\<exists>h. register_impl Td m p a as r =
         r\<lparr>handlers_m := emplace (handlers_m r) (m @ ''+'' @ prefix_m r @ p) h\<rparr>"
  by (cases a)
     (auto simp: register_impl_def compose_def register_with_next_def register_without_next_def
        register_with_next_member_def register_without_next_member_def)

lemma register_impl_without_next:
  "register_impl Td m p (Middleware_without_next f) [] r =
     r\<lparr>handlers_m := emplace (handlers_m r) (m @ ''+'' @ prefix_m r @ p) (\<lambda>c. Inr (f c))\<rparr>"
  by (simp add: register_impl_def register_without_next_def)

lemma register_impl_with_next:
  "register_impl Td m p (Middleware f) [] r =
     r\<lparr>handlers_m := emplace (handlers_m r) (m @ ''+'' @ prefix_m r @ p) (call_with_noop f)\<rparr>"
  by (simp add: register_impl_def register_with_next_def)

lemma register_impl_chain:
  "as \<noteq> [] \<Longrightarrow> register_impl Td m p a as r =
     r\<lparr>handlers_m := emplace (handlers_m r) (m @ ''+'' @ prefix_m r @ p)
         (\<lambda>c. map_sum id ctx (run_chain (register_multiple Td [] (a # as)) c))\<rparr>"
  by (simp add: register_impl_def compose_def)

lemma prefix_register_impl [simp]: "prefix_m (register_impl Td m p a as r) = prefix_m r"
  using register_impl_shape[of Td m p a as r] by auto

text \<open>A second registration under the key of an earlier one changes nothing.\<close>

lemma register_impl_idem:
  "register_impl Td m p b bs (register_impl Td m p a as r) = register_impl Td m p a as r"
proof -
  let ?r = "register_impl Td m p a as r"
  obtain h where h: "?r = r\<lparr>handlers_m := emplace (handlers_m r) (m @ ''+'' @ prefix_m r @ p) h\<rparr>"
    using register_impl_shape[of Td m p a as r] by blast
  obtain g where g: "register_impl Td m p b bs ?r =
         ?r\<lparr>handlers_m := emplace (handlers_m ?r) (m @ ''+'' @ prefix_m ?r @ p) g\<rparr>"
    using register_impl_shape[of Td m p b bs ?r] by blast
  have "handlers_m ?r = emplace (handlers_m r) (m @ ''+'' @ prefix_m r @ p) h"
    by (subst h) simp
  then have "emplace (handlers_m ?r) (m @ ''+'' @ prefix_m r @ p) g = handlers_m ?r"
    by (simp add: emplace_twice)
  then show ?thesis
    by (subst g) simp
qed

lemma register_without_next_entry:
  "handlers_m (register_impl Td m' p (Middleware_without_next f) [] r) (m @ ''+'' @ prefix_m r @ p) =
     (case handlers_m r (m @ ''+'' @ prefix_m r @ p) of
        Some h \<Rightarrow> Some h
      | None \<Rightarrow> if m' = m then Some (\<lambda>c. Inr (f c)) else None)"
  by (simp add: register_impl_without_next emplace_def split: option.splits)

lemma register_impl_keeps:
  "handlers_m r k = Some h \<Longrightarrow> handlers_m (register_impl Td m p a as r) k = Some h"
  using register_impl_shape[of Td m p a as r]
  by (auto simp: emplace_def split: option.splits)

lemma prefix_all_loop [simp]:
  "prefix_m (all_loop Td moved ms p a as r) = prefix_m r"
  by (induction ms arbitrary: a as r) simp_all

lemma all_loop_keeps:
  "handlers_m r k = Some h \<Longrightarrow> handlers_m (all_loop Td moved ms p a as r) k = Some h"
  by (induction ms arbitrary: a as r) (simp_all add: register_impl_keeps)

text \<open>
  When the handler is the same after a move, each of the methods gets it, wherever the
  key was free.
\<close>

lemma all_loop_inserts:
  assumes "moved (Middleware_without_next f) = Middleware_without_next f"
  shows "handlers_m r (m @ ''+'' @ prefix_m r @ p) = None \<Longrightarrow> m \<in> set ms \<Longrightarrow>
   handlers_m (all_loop Td moved ms p (Middleware_without_next f) [] r)
     (m @ ''+'' @ prefix_m r @ p) = Some (\<lambda>c. Inr (f c))"
proof (induction ms arbitrary: r)
  case Nil
  then show ?case by simp
next
  case (Cons m' ms)
  let ?r = "register_impl Td m' p (Middleware_without_next f) [] r"
  have step: "all_loop Td moved (m' # ms) p (Middleware_without_next f) [] r
                = all_loop Td moved ms p (Middleware_without_next f) [] ?r"
    using assms by simp
  show ?case
  proof (cases "m' = m")
    case True
    have "handlers_m ?r (m @ ''+'' @ prefix_m r @ p) = Some (\<lambda>c. Inr (f c))"
      using Cons.prems(1) True register_without_next_entry[of Td m' p f r m] by simp
    from all_loop_keeps[OF this] show ?thesis by (simp only: step)
  next
    case False
    with Cons.prems register_without_next_entry[of Td m' p f r m]
    have "handlers_m ?r (m @ ''+'' @ prefix_m ?r @ p) = None" and "m \<in> set ms"
      by simp_all
    from Cons.IH[OF this] show ?thesis by (simp only: step) simp
  qed
qed

lemma redirect_entry:
  assumes "m \<in> set methods" and "handlers_m r (m @ ''+'' @ prefix_m r @ p) = None"
  shows "handlers_m (redirect_impl Td p (Chars d) st r) (m @ ''+'' @ prefix_m r @ p)
           = Some (\<lambda>c. Inr (ctx_status (unat st) (ctx_redirect d c)))"
  unfolding redirect_impl_def all_def redirect_handler_def
  using all_loop_inserts[where moved = "\<lambda>h. Middleware_without_next
              (\<lambda>c. ctx_status (unat st) (ctx_redirect (chars_of (moved_from (Chars d))) c))"
          and f = "\<lambda>c. ctx_status (unat st) (ctx_redirect d c)", OF _ assms(2,1)]
  by simp

lemma routes_redirect:
  assumes "m \<in> set methods" and "handlers_m r (m @ ''+'' @ prefix_m r @ p) = None"
    and "status c = 404" and "http_method c = m" and "path c = p"
  shows "routes (redirect_impl Td p (Chars d) st r) c
           = Inr (c\<lparr>redirect_target := d, status := unat st\<rparr>)"
proof -
  have pre: "prefix_m (redirect_impl Td p (Chars d) st r) = prefix_m r"
    by (simp add: redirect_impl_def all_def)
  show ?thesis
    using assms(3-5) redirect_entry[OF assms(1,2), of Td d st]
    by (simp add: routes_def make_routes_def pre ctx_status_def ctx_redirect_def)
qed


section \<open>Dispatch\<close>

text \<open>
  Claim C4. A handler registered alone under GET and \<^verbatim>\<open>"/x"\<close> on a router with empty prefix
  (and no earlier entry for that key) is invoked exactly once by the dispatch of an
  unhandled context with method GET and path \<^verbatim>\<open>"/x"\<close>, and the context that results,
  its status included, is the one the handler leaves. This holds for each shape of
  handler: a callable without continuation is applied once to the context; a callable
  with continuation is run once, its calls of the continuation doing nothing; a member
  function is called once on its instance, or on \<^verbatim>\<open>T{}\<close> when the instance pointer is null
  or absent.
\<close>

theorem get_dispatch_invokes_once:
  assumes "prefix_m r = ''''" and "handlers_m r ''GET+/x'' = None"
    and "http_method c = ''GET''" and "path c = ''/x''" and "status c = 404"
  shows "routes (get Td ''/x'' (Middleware_without_next h) [] r) c = Inr (h c)
       \<and> routes (get Td ''/x'' (Middleware b) [] r) c = Inr (body_effect b c)
       \<and> routes (get Td ''/x'' (Middleware (Upd u (Next (Upd v Done)))) [] r) c = Inr (v (u c))
       \<and> routes (get Td ''/x'' (Member f (Some t)) [] r) c = Inr (body_effect (f t) c)
       \<and> routes (get Td ''/x'' (Member f None) [] r) c = Inr (body_effect (f Td) c)
       \<and> routes (get Td ''/x'' (Member_unbound f) [] r) c = Inr (body_effect (f Td) c)
       \<and> routes (get Td ''/x'' (Member_without_next g (Some t)) [] r) c = Inr (g t c)
       \<and> routes (get Td ''/x'' (Member_without_next g None) [] r) c = Inr (g Td c)
       \<and> routes (get Td ''/x'' (Member_without_next_unbound g) [] r) c = Inr (g Td c)"
proof -
  have hit: "routes (r\<lparr>handlers_m := emplace (handlers_m r) (''GET'' @ ''+'' @ prefix_m r @ ''/x'') k\<rparr>) c = k c"
    for k
    using assms by (simp add: routes_def make_routes_def emplace_def)
  show ?thesis
    using hit
    by (simp add: get_def register_impl_def register_with_next_def register_without_next_def
          register_with_next_member_def register_without_next_member_def call_with_noop_effect)
qed

theorem get_dispatch_invokes_once_witness:
  "routes (get () ''/x''
       (Middleware_without_next (\<lambda>c. c\<lparr>status := 200, http_context.more := Suc (http_context.more c)\<rparr>))
       [] router_default)
     \<lparr>http_method = ''GET'', path = ''/x'', status = 404, redirect_target = '''', \<dots> = (0::nat)\<rparr>
   = Inr \<lparr>http_method = ''GET'', path = ''/x'', status = 200, redirect_target = '''', \<dots> = Suc 0\<rparr>
   \<and> routes (get () ''/x''
       (Middleware (Upd (\<lambda>c. c\<lparr>status := 200, http_context.more := Suc (http_context.more c)\<rparr>) (Next Done)))
       [] router_default)
     \<lparr>http_method = ''GET'', path = ''/x'', status = 404, redirect_target = '''', \<dots> = (0::nat)\<rparr>
   = Inr \<lparr>http_method = ''GET'', path = ''/x'', status = 200, redirect_target = '''', \<dots> = Suc 0\<rparr>"
  using get_dispatch_invokes_once[where r = router_default and Td = "()"
      and c = "\<lparr>http_method = ''GET'', path = ''/x'', status = 404, redirect_target = '''', \<dots> = (0::nat)\<rparr>"
      and h = "\<lambda>c. c\<lparr>status := 200, http_context.more := Suc (http_context.more c)\<rparr>"
      and b = "Upd (\<lambda>c. c\<lparr>status := 200, http_context.more := Suc (http_context.more c)\<rparr>) (Next Done)"]
  by (simp add: router_default_def)

text \<open>
  Claim C5. For a context whose status is not 404 the dispatcher runs no handler and
  returns the context as it is, whatever the route table holds.
\<close>

theorem dispatch_skips_handled:
  "status c \<noteq> 404 \<Longrightarrow>
     routes r c = Inr c \<and> routes (r\<lparr>handlers_m := t\<rparr>) c = Inr c"
  by (simp add: make_routes_def routes_def)

theorem dispatch_skips_handled_witness:
  "routes (get () ''/x'' (Middleware_without_next (ctx_status 500)) [] router_default)
     \<lparr>http_method = ''GET'', path = ''/x'', status = 200, redirect_target = ''''\<rparr>
   = Inr \<lparr>http_method = ''GET'', path = ''/x'', status = 200, redirect_target = ''''\<rparr>"
  using dispatch_skips_handled[where
      c = "\<lparr>http_method = ''GET'', path = ''/x'', status = 200, redirect_target = ''''\<rparr>"
      and r = "get () ''/x'' (Middleware_without_next (ctx_status 500)) [] router_default"]
  by simp

text \<open>
  Claim C6. The first registration under a route key wins: a second registration under
  the same method and path leaves the router as the first one made it, whatever the
  shapes of the handlers, so the entry is still the handler composed from the first
  registration, and the dispatch of a matching unhandled context runs \<open>A\<close> and not \<open>B\<close>.
\<close>

theorem first_registration_wins:
  assumes "handlers_m r (m @ ''+'' @ prefix_m r @ p) = None"
    and "status c = 404" and "http_method c = m" and "path c = p"
  shows "register_impl Td m p b bs (register_impl Td m p a as r) = register_impl Td m p a as r
       \<and> routes (register_impl Td m p (Middleware_without_next B) []
                  (register_impl Td m p (Middleware_without_next A) [] r)) c = Inr (A c)
       \<and> (as \<noteq> [] \<longrightarrow>
            handlers_m (register_impl Td m p b bs (register_impl Td m p a as r))
              (m @ ''+'' @ prefix_m r @ p)
            = Some (\<lambda>c. map_sum id ctx (run_chain (register_multiple Td [] (a # as)) c)))"
proof (intro conjI impI)
  show "register_impl Td m p b bs (register_impl Td m p a as r) = register_impl Td m p a as r"
    by (rule register_impl_idem)
next
  have "routes (register_impl Td m p (Middleware_without_next A) [] r) c = Inr (A c)"
    using assms
    by (simp add: routes_def register_impl_without_next make_routes_def emplace_def)
  then show "routes (register_impl Td m p (Middleware_without_next B) []
                  (register_impl Td m p (Middleware_without_next A) [] r)) c = Inr (A c)"
    by (simp only: register_impl_idem)
next
  assume "as \<noteq> []"
  then have "handlers_m (register_impl Td m p a as r) (m @ ''+'' @ prefix_m r @ p)
            = Some (\<lambda>c. map_sum id ctx (run_chain (register_multiple Td [] (a # as)) c))"
    using assms(1) by (simp add: register_impl_chain emplace_def)
  then show "handlers_m (register_impl Td m p b bs (register_impl Td m p a as r))
              (m @ ''+'' @ prefix_m r @ p)
            = Some (\<lambda>c. map_sum id ctx (run_chain (register_multiple Td [] (a # as)) c))"
    by (simp only: register_impl_idem)
qed

theorem first_registration_wins_witness:
  "routes (get () ''/x'' (Middleware_without_next (ctx_status 500)) []
            (get () ''/x'' (Middleware_without_next (ctx_status 200)) [] router_default))
     \<lparr>http_method = ''GET'', path = ''/x'', status = 404, redirect_target = ''''\<rparr>
   = Inr \<lparr>http_method = ''GET'', path = ''/x'', status = 200, redirect_target = ''''\<rparr>"
  using first_registration_wins[where r = router_default and m = "''GET''" and p = "''/x''"
      and c = "\<lparr>http_method = ''GET'', path = ''/x'', status = 404, redirect_target = ''''\<rparr>"
      and Td = "()" and A = "ctx_status 200" and B = "ctx_status 500"
      and a = "Middleware (Next Done)" and as = "[Middleware Done]"
      and b = "Middleware Done" and bs = "[]"]
  by (simp add: router_default_def get_def ctx_status_def)

text \<open>
  Claim C7, as amended. Registration and lookup build the key by the same literal
  concatenation of method, \<^verbatim>\<open>"+"\<close>, prefix and path, compared by string equality. Since
  the lookup puts the prefix in front of the path of the context as well, a router with
  prefix \<^verbatim>\<open>"/api"\<close> that registers GET \<^verbatim>\<open>"/users"\<close> matches an unhandled context with method
  GET and path \<^verbatim>\<open>"/users"\<close>, and does not match one with path \<^verbatim>\<open>"/api/users"\<close>.
\<close>

theorem route_key_concatenation:
  assumes "status c = 404" and "http_method c = m"
  shows "handlers_m (register_impl Td m p (Middleware_without_next h) [] (router_with_prefix pre))
           = [m @ ''+'' @ pre @ p \<mapsto> (\<lambda>c. Inr (h c))]
       \<and> routes (register_impl Td m p (Middleware_without_next h) [] (router_with_prefix pre)) c
           = (if path c = p then Inr (h c) else Inr c)
       \<and> (m = ''GET'' \<and> path c = ''/users'' \<longrightarrow>
            routes (get Td ''/users'' (Middleware_without_next h) [] (router_with_prefix ''/api'')) c
              = Inr (h c))
       \<and> (m = ''GET'' \<and> path c = ''/api/users'' \<longrightarrow>
            routes (get Td ''/users'' (Middleware_without_next h) [] (router_with_prefix ''/api'')) c
              = Inr c)"
  using assms
  by (simp add: register_impl_without_next router_with_prefix_def emplace_def routes_def
        make_routes_def get_def)

theorem route_key_concatenation_witness:
  "routes (get () ''/users'' (Middleware_without_next (ctx_status 200)) [] (router_with_prefix ''/api''))
      \<lparr>http_method = ''GET'', path = ''/users'', status = 404, redirect_target = ''''\<rparr>
    = Inr \<lparr>http_method = ''GET'', path = ''/users'', status = 200, redirect_target = ''''\<rparr>"
  using route_key_concatenation[where
      c = "\<lparr>http_method = ''GET'', path = ''/users'', status = 404, redirect_target = ''''\<rparr>"
      and m = "''GET''" and Td = "()" and h = "ctx_status 200"]
  by (simp add: ctx_status_def)

text \<open>
  The claim as it was written fails: with prefix \<^verbatim>\<open>"/api"\<close> and GET \<^verbatim>\<open>"/users"\<close> registered,
  the dispatch of GET \<^verbatim>\<open>"/api/users"\<close> looks up \<^verbatim>\<open>"GET+/api/api/users"\<close>, finds nothing and
  leaves the context unhandled, and the dispatch of GET \<^verbatim>\<open>"/users"\<close> runs the handler.
\<close>

theorem prefixed_path_counterexample:
  "routes (get () ''/users'' (Middleware_without_next (ctx_status 200)) [] (router_with_prefix ''/api''))
      \<lparr>http_method = ''GET'', path = ''/api/users'', status = 404, redirect_target = ''''\<rparr>
    = Inr \<lparr>http_method = ''GET'', path = ''/api/users'', status = 404, redirect_target = ''''\<rparr>
   \<and> routes (get () ''/users'' (Middleware_without_next (ctx_status 200)) [] (router_with_prefix ''/api''))
      \<lparr>http_method = ''GET'', path = ''/users'', status = 404, redirect_target = ''''\<rparr>
    = Inr \<lparr>http_method = ''GET'', path = ''/users'', status = 200, redirect_target = ''''\<rparr>"
  by (simp add: routes_def make_routes_def get_def register_impl_def register_without_next_def
        router_with_prefix_def emplace_def ctx_status_def)

text \<open>
  Claim C8. After \<^verbatim>\<open>redirect(path, destination)\<close> with the destination given as a string
  literal, on a router just constructed with any prefix, the dispatch of an unhandled
  context with that path and any of the five methods \<^verbatim>\<open>all\<close> registers leaves the
  context with status 301 and the destination as redirect target; with a status as third
  argument the status is that argument. The same holds on every router that had no entry
  for the key before.
\<close>

theorem redirect_sets_status_and_target:
  assumes "m \<in> set methods" and "status c = 404" and "http_method c = m" and "path c = p"
  shows "routes (redirect_impl_default Td p (Chars d) (router_with_prefix pre)) c
           = Inr (c\<lparr>redirect_target := d, status := 301\<rparr>)
       \<and> routes (redirect_impl Td p (Chars d) st (router_with_prefix pre)) c
           = Inr (c\<lparr>redirect_target := d, status := unat st\<rparr>)
       \<and> (handlers_m r (m @ ''+'' @ prefix_m r @ p) = None \<longrightarrow>
            routes (redirect_impl_default Td p (Chars d) r) c
              = Inr (c\<lparr>redirect_target := d, status := 301\<rparr>)
          \<and> routes (redirect_impl Td p (Chars d) st r) c
              = Inr (c\<lparr>redirect_target := d, status := unat st\<rparr>))"
proof -
  have fresh: "handlers_m (router_with_prefix pre) (m @ ''+'' @ prefix_m (router_with_prefix pre) @ p) = None"
    by (simp add: router_with_prefix_def)
  have u: "unat (301 :: 32 word) = 301" by simp
  show ?thesis
    using routes_redirect[OF assms(1) fresh assms(2-4), of Td d]
      routes_redirect[OF assms(1) _ assms(2-4), of r Td d]
    by (simp add: redirect_impl_default_def u)
qed

theorem redirect_sets_status_and_target_witness:
  "routes (redirect_impl_default () ''/old'' (Chars ''/new'') router_default)
      \<lparr>http_method = ''GET'', path = ''/old'', status = 404, redirect_target = ''''\<rparr>
    = Inr \<lparr>http_method = ''GET'', path = ''/old'', status = 301, redirect_target = ''/new''\<rparr>
   \<and> routes (redirect_impl () ''/old'' (Chars ''/new'') 302 router_default)
      \<lparr>http_method = ''GET'', path = ''/old'', status = 404, redirect_target = ''''\<rparr>
    = Inr \<lparr>http_method = ''GET'', path = ''/old'', status = 302, redirect_target = ''/new''\<rparr>"
  using redirect_sets_status_and_target[where m = "''GET''" and pre = "''''" and p = "''/old''"
      and c = "\<lparr>http_method = ''GET'', path = ''/old'', status = 404, redirect_target = ''''\<rparr>"
      and Td = "()" and d = "''/new''" and st = 302]
  by (simp add: methods_def router_default_def router_with_prefix_def)

text \<open>
  With a \<^verbatim>\<open>std::string\<close> as destination the closure forwarded to the second and later
  registrations has been moved from: only the route under DEL redirects to the
  destination.
\<close>

lemma redirect_std_string_moved_out:
  "routes (redirect_impl_default () ''/old'' (Std_string ''/new'') router_default)
      \<lparr>http_method = ''DEL'', path = ''/old'', status = 404, redirect_target = ''''\<rparr>
    = Inr \<lparr>http_method = ''DEL'', path = ''/old'', status = 301, redirect_target = ''/new''\<rparr>
   \<and> routes (redirect_impl_default () ''/old'' (Std_string ''/new'') router_default)
      \<lparr>http_method = ''GET'', path = ''/old'', status = 404, redirect_target = ''''\<rparr>
    = Inr \<lparr>http_method = ''GET'', path = ''/old'', status = 301, redirect_target = ''''\<rparr>"
  by (simp add: redirect_impl_default_def redirect_impl_def all_def methods_def redirect_handler_def
        register_impl_without_next router_default_def emplace_def routes_def make_routes_def
        ctx_status_def ctx_redirect_def)

text \<open>
  Claim C9. For an unhandled context whose key has no entry in the route table the
  dispatcher runs no handler and returns the context unchanged, its status still 404.
\<close>

theorem dispatch_miss_is_noop:
  "status c = 404 \<Longrightarrow> handlers_m r (http_method c @ ''+'' @ prefix_m r @ path c) = None \<Longrightarrow>
     routes r c = Inr c \<and> (\<exists>c'. routes r c = Inr c' \<and> status c' = 404)"
  by (simp add: make_routes_def routes_def)

theorem dispatch_miss_is_noop_witness:
  "routes (get () ''/x'' (Middleware_without_next (ctx_status 200)) [] router_default)
     \<lparr>http_method = ''GET'', path = ''/y'', status = 404, redirect_target = ''''\<rparr>
   = Inr \<lparr>http_method = ''GET'', path = ''/y'', status = 404, redirect_target = ''''\<rparr>"
  using dispatch_miss_is_noop[where
      c = "\<lparr>http_method = ''GET'', path = ''/y'', status = 404, redirect_target = ''''\<rparr>"
      and r = "get () ''/x'' (Middleware_without_next (ctx_status 200)) [] router_default"]
  by (simp add: get_def register_impl_without_next router_default_def emplace_def)


section \<open>Running a chain\<close>

lemma exec_no_call:
  "calls_next 0 p \<Longrightarrow> \<exists>c'. exec k p s = Inr (s\<lparr>ctx := c'\<rparr>)"
proof (induction p arbitrary: s)
  case Done
  have "exec k Done s = Inr (s\<lparr>ctx := ctx s\<rparr>)" by simp
  then show ?case by blast
next
  case (Upd f p)
  then obtain c' where "exec k p (s\<lparr>ctx := f (ctx s)\<rparr>) = Inr (s\<lparr>ctx := f (ctx s)\<rparr>\<lparr>ctx := c'\<rparr>)"
    by fastforce
  then have "exec k (Upd f p) s = Inr (s\<lparr>ctx := c'\<rparr>)" by simp
  then show ?case by blast
next
  case (Next p)
  then show ?case by simp
next
  case (Cond b p q)
  then show ?case by (cases "b (ctx s)") simp_all
qed

lemma exec_one_call:
  "calls_next (Suc 0) p \<Longrightarrow>
   \<exists>c1. (\<forall>e. call_next k (s\<lparr>ctx := c1\<rparr>) = Inl e \<longrightarrow> exec k p s = Inl e)
      \<and> (\<forall>s1. call_next k (s\<lparr>ctx := c1\<rparr>) = Inr s1 \<longrightarrow> (\<exists>c2. exec k p s = Inr (s1\<lparr>ctx := c2\<rparr>)))"
proof (induction p arbitrary: s)
  case Done
  then show ?case by simp
next
  case (Upd f p)
  from Upd.IH[OF Upd.prems[simplified], of "s\<lparr>ctx := f (ctx s)\<rparr>"]
  show ?case by simp
next
  case (Next p)
  then have p0: "calls_next 0 p" by simp
  have "(\<forall>e. call_next k (s\<lparr>ctx := ctx s\<rparr>) = Inl e \<longrightarrow> exec k (Next p) s = Inl e)
      \<and> (\<forall>s1. call_next k (s\<lparr>ctx := ctx s\<rparr>) = Inr s1 \<longrightarrow> (\<exists>c2. exec k (Next p) s = Inr (s1\<lparr>ctx := c2\<rparr>)))"
    using exec_no_call[OF p0, of k] by simp
  then show ?case by blast
next
  case (Cond b p q)
  then show ?case by (cases "b (ctx s)") simp_all
qed

lemma exec_two_calls:
  "calls_next (Suc (Suc 0)) p \<Longrightarrow>
   \<exists>c1. (\<forall>e. call_next k (s\<lparr>ctx := c1\<rparr>) = Inl e \<longrightarrow> exec k p s = Inl e)
      \<and> (\<forall>s1. call_next k (s\<lparr>ctx := c1\<rparr>) = Inr s1 \<longrightarrow>
            (\<exists>c2. (\<forall>e. call_next k (s1\<lparr>ctx := c2\<rparr>) = Inl e \<longrightarrow> exec k p s = Inl e)
               \<and> (\<forall>s2. call_next k (s1\<lparr>ctx := c2\<rparr>) = Inr s2 \<longrightarrow>
                     (\<exists>c3. exec k p s = Inr (s2\<lparr>ctx := c3\<rparr>)))))"
proof (induction p arbitrary: s)
  case Done
  then show ?case by simp
next
  case (Upd f p)
  from Upd.IH[OF Upd.prems[simplified], of "s\<lparr>ctx := f (ctx s)\<rparr>"]
  show ?case by simp
next
  case (Next p)
  then have p1: "calls_next (Suc 0) p" by simp
  have "(\<forall>e. call_next k (s\<lparr>ctx := ctx s\<rparr>) = Inl e \<longrightarrow> exec k (Next p) s = Inl e)
      \<and> (\<forall>s1. call_next k (s\<lparr>ctx := ctx s\<rparr>) = Inr s1 \<longrightarrow>
            (\<exists>c2. (\<forall>e. call_next k (s1\<lparr>ctx := c2\<rparr>) = Inl e \<longrightarrow> exec k (Next p) s = Inl e)
               \<and> (\<forall>s2. call_next k (s1\<lparr>ctx := c2\<rparr>) = Inr s2 \<longrightarrow>
                     (\<exists>c3. exec k (Next p) s = Inr (s2\<lparr>ctx := c3\<rparr>)))))"
  proof (intro conjI allI impI)
    fix e assume "call_next k (s\<lparr>ctx := ctx s\<rparr>) = Inl e"
    then show "exec k (Next p) s = Inl e" by simp
  next
    fix s1 assume a: "call_next k (s\<lparr>ctx := ctx s\<rparr>) = Inr s1"
    then have "exec k (Next p) s = exec k p s1" by simp
    with exec_one_call[OF p1, of k s1]
    show "\<exists>c2. (\<forall>e. call_next k (s1\<lparr>ctx := c2\<rparr>) = Inl e \<longrightarrow> exec k (Next p) s = Inl e)
               \<and> (\<forall>s2. call_next k (s1\<lparr>ctx := c2\<rparr>) = Inr s2 \<longrightarrow>
                     (\<exists>c3. exec k (Next p) s = Inr (s2\<lparr>ctx := c3\<rparr>)))"
      by simp
  qed
  then show ?case by blast
next
  case (Cond b p q)
  then show ?case by (cases "b (ctx s)") simp_all
qed

lemma chain_from:
  assumes "\<And>j. i \<le> j \<Longrightarrow> j < length hs \<Longrightarrow> calls_next (Suc 0) (hs ! j)"
    and "i < length hs" and "cursor s = i"
  shows "\<exists>s'. exec (Advance hs) (hs ! i) s = Inr s' \<and> cursor s' = length hs
             \<and> trace s' = trace s @ [Suc i..<length hs]"
  using assms
proof (induction "length hs - i" arbitrary: i s)
  case 0
  then show ?case by simp
next
  case (Suc n)
  have one: "calls_next (Suc 0) (hs ! i)" using Suc.prems by simp
  obtain c1 where
    err: "\<And>e. call_next (Advance hs) (s\<lparr>ctx := c1\<rparr>) = Inl e \<Longrightarrow> exec (Advance hs) (hs ! i) s = Inl e"
    and ok: "\<And>s1. call_next (Advance hs) (s\<lparr>ctx := c1\<rparr>) = Inr s1 \<Longrightarrow>
               \<exists>c2. exec (Advance hs) (hs ! i) s = Inr (s1\<lparr>ctx := c2\<rparr>)"
    using exec_one_call[OF one, of "Advance hs" s] by blast
  show ?case
  proof (cases "Suc i = length hs")
    case True
    then have "call_next (Advance hs) (s\<lparr>ctx := c1\<rparr>) = Inr (s\<lparr>ctx := c1, cursor := length hs\<rparr>)"
      using Suc.prems(3) by simp
    from ok[OF this] True show ?thesis by auto
  next
    case False
    with Suc.prems have lt: "Suc i < length hs" by simp
    let ?s = "s\<lparr>ctx := c1, cursor := Suc i, trace := trace s @ [Suc i]\<rparr>"
    have n: "n = length hs - Suc i" using Suc.hyps(2) by simp
    have "\<exists>s'. exec (Advance hs) (hs ! Suc i) ?s = Inr s' \<and> cursor s' = length hs
             \<and> trace s' = trace ?s @ [Suc (Suc i)..<length hs]"
      using Suc.hyps(1)[OF n _ lt, of ?s] Suc.prems(1) by simp
    then obtain s1 where s1: "exec (Advance hs) (hs ! Suc i) ?s = Inr s1" "cursor s1 = length hs"
      "trace s1 = trace s @ [Suc i] @ [Suc (Suc i)..<length hs]" by auto
    have "call_next (Advance hs) (s\<lparr>ctx := c1\<rparr>) = Inr s1"
      using lt False Suc.prems(3) s1(1) by simp
    from ok[OF this] s1(2,3) lt show ?thesis by (auto simp: upt_conv_Cons)
  qed
qed

lemma trace_invariant:
  "exec k p s = Inr s' \<Longrightarrow> k = Advance hs \<Longrightarrow> cursor s \<le> length hs \<Longrightarrow>
     trace s = [0..<min (Suc (cursor s)) (length hs)] \<Longrightarrow>
     cursor s' \<le> length hs \<and> trace s' = [0..<min (Suc (cursor s')) (length hs)]"
  "call_next k s = Inr s' \<Longrightarrow> k = Advance hs \<Longrightarrow> cursor s \<le> length hs \<Longrightarrow>
     trace s = [0..<min (Suc (cursor s)) (length hs)] \<Longrightarrow>
     cursor s' \<le> length hs \<and> trace s' = [0..<min (Suc (cursor s')) (length hs)]"
proof (induction k p s and k s arbitrary: s' and s' rule: exec_call_next.induct)
  case (1 k s)
  then show ?case by simp
next
  case (2 k f p s)
  have "exec k p (s\<lparr>ctx := f (ctx s)\<rparr>) = Inr s'" using 2(2) by simp
  from 2(1)[OF this 2(3)] 2(4,5) show ?case by simp
next
  case (3 k p s)
  from 3(3) obtain s1 where a: "call_next k s = Inr s1" and b: "exec k p s1 = Inr s'"
    by (auto split: sum.splits)
  from 3(1)[OF a 3(4,5,6)] have "cursor s1 \<le> length hs" "trace s1 = [0..<min (Suc (cursor s1)) (length hs)]"
    by simp_all
  from 3(2)[OF a b 3(4) this] show ?case .
next
  case (4 k b p q s)
  show ?case
  proof (cases "b (ctx s)")
    case True
    with 4(3) have "exec k p s = Inr s'" by simp
    from 4(1)[OF True this 4(4,5,6)] show ?thesis .
  next
    case False
    with 4(3) have "exec k q s = Inr s'" by simp
    from 4(2)[OF False this 4(4,5,6)] show ?thesis .
  qed
next
  case (5 s)
  then show ?case by simp
next
  case (6 handlers s)
  from 6(3) have hs: "handlers = hs" by simp
  show ?case
  proof (cases "Suc (cursor s) = length hs")
    case True
    with 6(2) hs have "s' = s\<lparr>cursor := length hs\<rparr>" by simp
    with 6(5) True show ?thesis by simp
  next
    case False
    with 6(2) hs have lt: "Suc (cursor s) < length hs"
      by (simp add: Let_def split: if_splits)
    with 6(2) hs False have
      e: "exec (Advance handlers) (handlers ! Suc (cursor s))
               (s\<lparr>cursor := Suc (cursor s), trace := trace s @ [Suc (cursor s)]\<rparr>) = Inr s'"
      by (simp add: Let_def)
    from False hs have ne: "Suc (cursor s) \<noteq> length handlers" by simp
    from lt hs have lt': "Suc (cursor s) < length handlers" by simp
    have c: "cursor (s\<lparr>cursor := Suc (cursor s), trace := trace s @ [Suc (cursor s)]\<rparr>) \<le> length hs"
      using lt by simp
    have t: "trace (s\<lparr>cursor := Suc (cursor s), trace := trace s @ [Suc (cursor s)]\<rparr>)
        = [0..<min (Suc (cursor (s\<lparr>cursor := Suc (cursor s), trace := trace s @ [Suc (cursor s)]\<rparr>))) (length hs)]"
      using lt 6(5) by (simp add: min_def)
    show ?thesis
      using 6(1)[OF refl ne lt' e 6(3) c t] .
  qed
qed

lemma run_chain_invariant:
  assumes "2 \<le> length hs" and "run_chain hs c = Inr s"
  shows "cursor s \<le> length hs \<and> trace s = [0..<min (Suc (cursor s)) (length hs)]"
proof -
  let ?s0 = "\<lparr>cursor = 0, ctx = c, trace = [0]\<rparr>"
  from assms have e: "exec (Advance hs) (hs ! 0) ?s0 = Inr s"
    by (auto simp: run_chain_def split: if_splits)
  have c0: "cursor ?s0 \<le> length hs" by simp
  have t0: "trace ?s0 = [0..<min (Suc (cursor ?s0)) (length hs)]"
    using assms(1) by (simp add: min_def)
  from trace_invariant(1)[OF e refl c0 t0] show ?thesis .
qed

lemma double_call_reaches_third:
  assumes "calls_next (Suc (Suc 0)) h1" and "calls_next 0 h2" and "calls_next 0 h3"
  shows "\<exists>c'. run_chain [h1, h2, h3] c = Inr \<lparr>cursor = 2, ctx = c', trace = [0, 1, 2]\<rparr>"
proof -
  let ?k = "Advance [h1, h2, h3]"
  let ?s0 = "\<lparr>cursor = 0, ctx = c, trace = [0]\<rparr>"
  obtain c1 where
    ok1: "\<And>s1. call_next ?k (?s0\<lparr>ctx := c1\<rparr>) = Inr s1 \<Longrightarrow>
            \<exists>c2. \<forall>s2. call_next ?k (s1\<lparr>ctx := c2\<rparr>) = Inr s2 \<longrightarrow>
                     (\<exists>c3. exec ?k h1 ?s0 = Inr (s2\<lparr>ctx := c3\<rparr>))"
    using exec_two_calls[OF assms(1), of ?k ?s0] by blast
  obtain d1 where d1: "exec ?k h2 \<lparr>cursor = Suc 0, ctx = c1, trace = [0, Suc 0]\<rparr>
       = Inr (\<lparr>cursor = Suc 0, ctx = c1, trace = [0, Suc 0]\<rparr>\<lparr>ctx := d1\<rparr>)"
    using exec_no_call[OF assms(2)] by blast
  then have "call_next ?k (?s0\<lparr>ctx := c1\<rparr>) = Inr \<lparr>cursor = Suc 0, ctx = d1, trace = [0, Suc 0]\<rparr>"
    by simp
  from ok1[OF this] obtain c2 where
    ok2: "\<And>s2. call_next ?k (\<lparr>cursor = Suc 0, ctx = d1, trace = [0, Suc 0]\<rparr>\<lparr>ctx := c2\<rparr>) = Inr s2 \<Longrightarrow>
                     \<exists>c3. exec ?k h1 ?s0 = Inr (s2\<lparr>ctx := c3\<rparr>)"
    by blast
  obtain d2 where d2: "exec ?k h3 \<lparr>cursor = Suc (Suc 0), ctx = c2, trace = [0, Suc 0, Suc (Suc 0)]\<rparr>
       = Inr (\<lparr>cursor = Suc (Suc 0), ctx = c2, trace = [0, Suc 0, Suc (Suc 0)]\<rparr>\<lparr>ctx := d2\<rparr>)"
    using exec_no_call[OF assms(3)] by blast
  then have "call_next ?k (\<lparr>cursor = Suc 0, ctx = d1, trace = [0, Suc 0]\<rparr>\<lparr>ctx := c2\<rparr>)
       = Inr \<lparr>cursor = Suc (Suc 0), ctx = d2, trace = [0, Suc 0, Suc (Suc 0)]\<rparr>"
    by simp
  from ok2[OF this] obtain c3 where
    "exec ?k h1 ?s0 = Inr \<lparr>cursor = Suc (Suc 0), ctx = c3, trace = [0, Suc 0, Suc (Suc 0)]\<rparr>"
    by auto
  then have "run_chain [h1, h2, h3] c = Inr \<lparr>cursor = 2, ctx = c3, trace = [0, 1, 2]\<rparr>"
    by (simp add: run_chain_def numeral_2_eq_2)
  then show ?thesis by blast
qed

lemma routes_chain:
  assumes "handlers_m r (m @ ''+'' @ prefix_m r @ p) = None"
    and "status c = 404" and "http_method c = m" and "path c = p" and "as \<noteq> []"
  shows "routes (register_impl Td m p a as r) c
           = map_sum id ctx (run_chain (register_multiple Td [] (a # as)) c)"
  using assms by (simp add: routes_def make_routes_def register_impl_chain emplace_def)

lemma register_multiple_eq:
  "args \<noteq> [] \<Longrightarrow>
   register_multiple Td handlers args
     = handlers @ map (wrap Td) (butlast args) @ [wrap_last Td (last args)]"
  by (induction Td handlers args rule: register_multiple.induct) simp_all

lemma length_register_multiple [simp]:
  "length (register_multiple Td handlers args) = length handlers + length args"
  by (induction Td handlers args rule: register_multiple.induct) simp_all

lemma register_multiple_nth:
  assumes "Suc i < length args"
  shows "register_multiple Td [] args ! i = wrap Td (args ! i)"
proof -
  from assms have ne: "args \<noteq> []" by auto
  from assms have "i < length (butlast args)" by simp
  then show ?thesis
    by (simp add: register_multiple_eq[OF ne] nth_append nth_butlast)
qed

lemma register_multiple_last:
  assumes "args \<noteq> []" and "Suc i = length args"
  shows "register_multiple Td [] args ! i = wrap_last Td (args ! i)"
proof -
  from assms have "i = length (map (wrap Td) (butlast args))" by simp
  moreover from assms(2) have "length args - Suc 0 = i" by simp
  with assms(1) have "last args = args ! i"
    by (simp add: last_conv_nth)
  ultimately show ?thesis
    by (simp add: register_multiple_eq[OF assms(1)] nth_append)
qed

lemma exec_at_most_one:
  "calls_at_most (Suc 0) p \<Longrightarrow>
   (\<exists>c'. exec k p s = Inr (s\<lparr>ctx := c'\<rparr>))
   \<or> (\<exists>c1. (\<forall>e. call_next k (s\<lparr>ctx := c1\<rparr>) = Inl e \<longrightarrow> exec k p s = Inl e)
          \<and> (\<forall>s1. call_next k (s\<lparr>ctx := c1\<rparr>) = Inr s1 \<longrightarrow>
                (\<exists>c2. exec k p s = Inr (s1\<lparr>ctx := c2\<rparr>))))"
proof (induction p arbitrary: s)
  case Done
  have "exec k Done s = Inr (s\<lparr>ctx := ctx s\<rparr>)" by simp
  then show ?case by blast
next
  case (Upd f p)
  from Upd.IH[OF Upd.prems[simplified], of "s\<lparr>ctx := f (ctx s)\<rparr>"]
  show ?case by simp
next
  case (Next p)
  then have "calls_at_most 0 p" by simp
  then have p0: "calls_next 0 p"
    by (induction p) simp_all
  have "(\<forall>e. call_next k (s\<lparr>ctx := ctx s\<rparr>) = Inl e \<longrightarrow> exec k (Next p) s = Inl e)
      \<and> (\<forall>s1. call_next k (s\<lparr>ctx := ctx s\<rparr>) = Inr s1 \<longrightarrow> (\<exists>c2. exec k (Next p) s = Inr (s1\<lparr>ctx := c2\<rparr>)))"
    using exec_no_call[OF p0, of k] by simp
  then show ?case by blast
next
  case (Cond b p q)
  then show ?case by (cases "b (ctx s)") simp_all
qed

text \<open>
  A chain whose handler at position \<open>i\<close> returns at once, and whose earlier handlers call
  the continuation at most once, never gets past position \<open>i\<close>.
\<close>

lemma chain_stops_at:
  assumes "hs ! i = Done" and "i < length hs"
    and "\<And>j. j < i \<Longrightarrow> calls_at_most (Suc 0) (hs ! j)"
    and "j \<le> i" and "cursor s = j"
  shows "\<exists>s'. exec (Advance hs) (hs ! j) s = Inr s' \<and> j \<le> cursor s' \<and> cursor s' \<le> i
             \<and> trace s' = trace s @ [Suc j..<Suc (cursor s')]"
  using assms(4,5)
proof (induction "i - j" arbitrary: j s)
  case 0
  then have "j = i" by simp
  with assms(1) 0 show ?case by simp
next
  case (Suc n)
  then have lt: "j < i" by simp
  from assms(3)[OF lt] exec_at_most_one[of "hs ! j" "Advance hs" s]
  consider (stop) c' where "exec (Advance hs) (hs ! j) s = Inr (s\<lparr>ctx := c'\<rparr>)"
    | (call) c1 where
        "\<And>s1. call_next (Advance hs) (s\<lparr>ctx := c1\<rparr>) = Inr s1 \<Longrightarrow>
               \<exists>c2. exec (Advance hs) (hs ! j) s = Inr (s1\<lparr>ctx := c2\<rparr>)"
    by blast
  then show ?case
  proof cases
    case stop
    with Suc.prems lt show ?thesis by simp
  next
    case call
    let ?s = "s\<lparr>ctx := c1, cursor := Suc j, trace := trace s @ [Suc j]\<rparr>"
    from lt assms(2) have sl: "Suc j < length hs" by simp
    have n: "n = i - Suc j" using Suc.hyps(2) by simp
    from lt have le: "Suc j \<le> i" by simp
    obtain s1 where s1: "exec (Advance hs) (hs ! Suc j) ?s = Inr s1"
      "Suc j \<le> cursor s1" "cursor s1 \<le> i"
      "trace s1 = trace ?s @ [Suc (Suc j)..<Suc (cursor s1)]"
      using Suc.hyps(1)[OF n le, of ?s] by auto
    have "call_next (Advance hs) (s\<lparr>ctx := c1\<rparr>) = Inr s1"
      using sl Suc.prems(2) s1(1) by simp
    from call[OF this] obtain c2 where "exec (Advance hs) (hs ! j) s = Inr (s1\<lparr>ctx := c2\<rparr>)"
      by blast
    moreover have "trace s @ [Suc j] @ [Suc (Suc j)..<Suc (cursor s1)] = trace s @ [Suc j..<Suc (cursor s1)]"
      using s1(2) by (simp add: upt_conv_Cons)
    ultimately show ?thesis
      using s1(2,3,4) by simp
  qed
qed


section \<open>Chains of handlers\<close>

text \<open>
  Claim C1. A route is registered with three handlers, each of which calls its
  continuation exactly once on every path. The dispatch of a matching unhandled context
  returns, and the handlers invoked are those at positions 0, 1, 2 of the vector, in
  this order, each once; the context the dispatcher returns is the one of that run.
\<close>

theorem chain_runs_in_order:
  assumes "calls_next 1 h1" and "calls_next 1 h2" and "calls_next 1 h3"
    and "handlers_m r (m @ ''+'' @ prefix_m r @ p) = None"
    and "status c = 404" and "http_method c = m" and "path c = p"
  shows "\<exists>s. run_chain [h1, h2, h3] c = Inr s \<and> trace s = [0, 1, 2]
           \<and> routes (register_impl Td m p (Middleware h1) [Middleware h2, Middleware h3] r) c
               = Inr (ctx s)"
proof -
  have all1: "\<And>j. 0 \<le> j \<Longrightarrow> j < length [h1, h2, h3] \<Longrightarrow> calls_next (Suc 0) ([h1, h2, h3] ! j)"
    using assms(1-3) by (simp add: nth_Cons split: nat.splits)
  obtain s where s: "exec (Advance [h1, h2, h3]) ([h1, h2, h3] ! 0) \<lparr>cursor = 0, ctx = c, trace = [0]\<rparr> = Inr s"
    and cs: "cursor s = length [h1, h2, h3]"
    and ts: "trace s = trace \<lparr>cursor = 0, ctx = c, trace = [0]\<rparr> @ [Suc 0..<length [h1, h2, h3]]"
    using chain_from[of 0 "[h1, h2, h3]" "\<lparr>cursor = 0, ctx = c, trace = [0]\<rparr>", OF all1] by auto
  have run: "run_chain [h1, h2, h3] c = Inr s"
    using s by (simp add: run_chain_def)
  have tr: "trace s = [0, 1, 2]"
    using ts by (simp add: upt_conv_Cons)
  have "routes (register_impl Td m p (Middleware h1) [Middleware h2, Middleware h3] r) c
          = map_sum id ctx (run_chain [h1, h2, h3] c)"
    using routes_chain[OF assms(4-7), of "[Middleware h2, Middleware h3]" Td "Middleware h1"]
    by simp
  with run tr show ?thesis by simp
qed

theorem chain_runs_in_order_witness:
  "routes (get () ''/x''
       (Middleware (Upd (\<lambda>c. c\<lparr>http_context.more := http_context.more c @ [1]\<rparr>) (Next Done)))
       [Middleware (Upd (\<lambda>c. c\<lparr>http_context.more := http_context.more c @ [2]\<rparr>) (Next Done)),
        Middleware (Upd (\<lambda>c. c\<lparr>status := 200, http_context.more := http_context.more c @ [3]\<rparr>) (Next Done))]
       router_default)
     \<lparr>http_method = ''GET'', path = ''/x'', status = 404, redirect_target = '''', \<dots> = ([] :: nat list)\<rparr>
   = Inr \<lparr>http_method = ''GET'', path = ''/x'', status = 200, redirect_target = '''', \<dots> = [1, 2, 3]\<rparr>"
  using chain_runs_in_order[where r = router_default and m = "''GET''" and p = "''/x''" and Td = "()"
      and c = "\<lparr>http_method = ''GET'', path = ''/x'', status = 404, redirect_target = '''', \<dots> = ([] :: nat list)\<rparr>"
      and ?h1.0 = "Upd (\<lambda>c. c\<lparr>http_context.more := http_context.more c @ [1]\<rparr>) (Next Done)"
      and ?h2.0 = "Upd (\<lambda>c. c\<lparr>http_context.more := http_context.more c @ [2]\<rparr>) (Next Done)"
      and ?h3.0 = "Upd (\<lambda>c. c\<lparr>status := 200, http_context.more := http_context.more c @ [3]\<rparr>) (Next Done)"]
  by (simp add: router_default_def get_def run_chain_def)



text \<open>
  Claim C3, as amended. In a chain of two or more handlers every call of the
  continuation advances the one shared cursor and, while the new position is inside the
  vector, enters the handler at that position. So an extra call by a handler enters the
  next handler that has not run yet, and never one that has: in every run that returns,
  the handlers entered are those at positions 0 up to the cursor, in order, each once.
  In particular, when the first of three handlers calls its continuation twice and the
  other two never call theirs, the first call runs the second handler, the second call
  runs the third, and each has run once.
\<close>

theorem shared_cursor_never_reruns:
  assumes "2 \<le> length hs"
  shows "(\<forall>s. Suc (cursor s) < length hs \<longrightarrow>
            call_next (Advance hs) s =
              exec (Advance hs) (hs ! Suc (cursor s))
                (s\<lparr>cursor := Suc (cursor s), trace := trace s @ [Suc (cursor s)]\<rparr>))
       \<and> (\<forall>s. run_chain hs c = Inr s \<longrightarrow>
            trace s = [0..<min (Suc (cursor s)) (length hs)] \<and> distinct (trace s))
       \<and> (\<forall>h1 h2 h3. hs = [h1, h2, h3] \<and> calls_next 2 h1 \<and> calls_next 0 h2 \<and> calls_next 0 h3 \<longrightarrow>
            (\<exists>c'. run_chain hs c = Inr \<lparr>cursor = 2, ctx = c', trace = [0, 1, 2]\<rparr>))"
proof (intro conjI allI impI)
  fix s :: "'a exec_state"
  assume "Suc (cursor s) < length hs"
  then show "call_next (Advance hs) s =
              exec (Advance hs) (hs ! Suc (cursor s))
                (s\<lparr>cursor := Suc (cursor s), trace := trace s @ [Suc (cursor s)]\<rparr>)"
    by simp
next
  fix s assume "run_chain hs c = Inr s"
  from run_chain_invariant[OF assms this]
  show "trace s = [0..<min (Suc (cursor s)) (length hs)]" by simp
next
  fix s assume "run_chain hs c = Inr s"
  from run_chain_invariant[OF assms this]
  show "distinct (trace s)" by simp
next
  fix h1 h2 h3
  assume "hs = [h1, h2, h3] \<and> calls_next 2 h1 \<and> calls_next 0 h2 \<and> calls_next 0 h3"
  then show "\<exists>c'. run_chain hs c = Inr \<lparr>cursor = 2, ctx = c', trace = [0, 1, 2]\<rparr>"
    using double_call_reaches_third[of h1 h2 h3 c] by (simp add: numeral_2_eq_2)
qed

theorem shared_cursor_never_reruns_witness:
  "run_chain [Upd (\<lambda>l. l @ [1]) (Next (Next Done)), Upd (\<lambda>l. l @ [2]) Done, Upd (\<lambda>l. l @ [3]) Done]
      ([] :: nat list)
     = Inr \<lparr>cursor = 2, ctx = [1, 2, 3], trace = [0, 1, 2]\<rparr>
   \<and> distinct [0, 1, 2 :: nat]"
  using shared_cursor_never_reruns[where c = "[] :: nat list"
      and hs = "[Upd (\<lambda>l. l @ [1]) (Next (Next Done)), Upd (\<lambda>l. l @ [2]) Done, Upd (\<lambda>l. l @ [3]) Done]"]
  by (simp add: run_chain_def)

text \<open>
  The claim as it was written fails: the first handler calls its continuation twice, the
  second calls it once, the third never. The second and third handlers run once each;
  the second call of the first handler finds the cursor at the end and returns.
\<close>

theorem double_call_counterexample:
  "run_chain [Upd (\<lambda>l. l @ [1]) (Next (Next Done)), Upd (\<lambda>l. l @ [2]) (Next Done), Upd (\<lambda>l. l @ [3]) Done]
      ([] :: nat list)
     = Inr \<lparr>cursor = 3, ctx = [1, 2, 3], trace = [0, 1, 2]\<rparr>"
  by (simp add: run_chain_def)

text \<open>
  When all three handlers call the continuation and the first calls it a second time, the
  cursor has passed the size of the vector, the test \<^verbatim>\<open>++index == handlers.size()\<close> is
  false and \<^verbatim>\<open>handlers[index]\<close> is read out of range.
\<close>

lemma double_call_out_of_range:
  "run_chain [Next (Next Done), Next Done, Next Done] c = Inl Out_of_range"
  by (simp add: run_chain_def)

text \<open>
  Claim C10, as amended. In a registration of two or more handlers, the closure pushed
  for a member function with continuation and a null instance pointer calls neither the
  member function nor the continuation: it returns at once. So the chain does not go
  past it: when no earlier handler calls its continuation more than once, the run
  returns without having entered any later handler, and when it is the first handler
  the dispatch leaves the context as it was. The closure pushed for a member function
  without continuation and a null instance pointer, at a position before the last, calls
  the continuation and nothing else, so the chain goes on with the next handler.
\<close>

theorem null_instance_in_chain:
  assumes "2 \<le> length args" and "i < length args"
  shows "(args ! i = Member f None \<longrightarrow> exec k (register_multiple Td [] args ! i) s = Inr s)
       \<and> (args ! i = Member f None
            \<and> (\<forall>j<i. calls_at_most 1 (register_multiple Td [] args ! j)) \<longrightarrow>
            (\<exists>s'. run_chain (register_multiple Td [] args) c = Inr s'
                  \<and> cursor s' \<le> i \<and> trace s' = [0..<Suc (cursor s')]
                  \<and> (handlers_m r (m @ ''+'' @ prefix_m r @ p) = None
                       \<and> status c = 404 \<and> http_method c = m \<and> path c = p \<longrightarrow>
                     routes (register_impl Td m p (hd args) (tl args) r) c = Inr (ctx s'))))
       \<and> (args ! 0 = Member f None \<longrightarrow>
            run_chain (register_multiple Td [] args) c = Inr \<lparr>cursor = 0, ctx = c, trace = [0]\<rparr>)
       \<and> (args ! 0 = Member f None \<and> handlers_m r (m @ ''+'' @ prefix_m r @ p) = None
            \<and> status c = 404 \<and> http_method c = m \<and> path c = p \<longrightarrow>
            routes (register_impl Td m p (hd args) (tl args) r) c = Inr c)
       \<and> (args ! i = Member_without_next g None \<and> Suc i < length args \<longrightarrow>
            exec k (register_multiple Td [] args ! i) s = call_next k s)
       \<and> (args ! i = Member_without_next g None \<and> Suc i < length args \<and> cursor s = i \<longrightarrow>
            exec (Advance (register_multiple Td [] args)) (register_multiple Td [] args ! i) s
              = exec (Advance (register_multiple Td [] args)) (register_multiple Td [] args ! Suc i)
                  (s\<lparr>cursor := Suc i, trace := trace s @ [Suc i]\<rparr>))
       \<and> (args ! 0 = Member_without_next g None \<longrightarrow>
            run_chain (register_multiple Td [] args) c
              = exec (Advance (register_multiple Td [] args)) (register_multiple Td [] args ! 1)
                  \<lparr>cursor = 1, ctx = c, trace = [0, 1]\<rparr>)"
proof -
  let ?hs = "register_multiple Td [] args"
  from assms have ne: "args \<noteq> []" by auto
  have a: "?hs ! j = Done" if "args ! j = Member f None" "j < length args" for j
  proof (cases "Suc j = length args")
    case True
    from register_multiple_last[OF ne True, of Td] that show ?thesis by simp
  next
    case False
    with that(2) have "Suc j < length args" by simp
    from register_multiple_nth[OF this, of Td] that show ?thesis by simp
  qed
  have b: "?hs ! j = Next Done" if "args ! j = Member_without_next g None" "Suc j < length args" for j
    using register_multiple_nth[OF that(2), of Td] that(1) by simp
  have l2: "2 \<le> length ?hs" using assms(1) by simp
  then have len: "length ?hs \<noteq> 1" "?hs \<noteq> []" "Suc 0 < length ?hs"
    by (simp, fastforce, simp)
  have pos: "0 < length args" "Suc 0 < length args"
    using assms(1) by (simp_all del: length_greater_0_conv)
  have run0: "run_chain ?hs c = exec (Advance ?hs) (?hs ! 0) \<lparr>cursor = 0, ctx = c, trace = [0]\<rparr>"
    using len by (simp add: run_chain_def)
  from assms(1) have tl: "tl args \<noteq> []" by (cases args) auto
  from ne have ht: "hd args # tl args = args" by simp
  have disp: "routes (register_impl Td m p (hd args) (tl args) r) c = map_sum id ctx (run_chain ?hs c)"
    if "handlers_m r (m @ ''+'' @ prefix_m r @ p) = None" "status c = 404" "http_method c = m" "path c = p"
    using routes_chain[OF that tl, of Td "hd args"] ht by simp
  have c1: "run_chain ?hs c = Inr \<lparr>cursor = 0, ctx = c, trace = [0]\<rparr>"
    if "args ! 0 = Member f None"
    using a[OF that pos(1)] run0 by simp
  have c2: "run_chain ?hs c = exec (Advance ?hs) (?hs ! 1) \<lparr>cursor = 1, ctx = c, trace = [0, 1]\<rparr>"
    if "args ! 0 = Member_without_next g None"
  proof -
    from b[OF that pos(2)] have "?hs ! 0 = Next Done" .
    then show ?thesis
      using len by (simp add: run_chain_def split: sum.splits)
  qed
  have c3: "routes (register_impl Td m p (hd args) (tl args) r) c = Inr c"
    if "args ! 0 = Member f None" "handlers_m r (m @ ''+'' @ prefix_m r @ p) = None"
      "status c = 404" "http_method c = m" "path c = p"
    using disp[OF that(2-5)] c1[OF that(1)] by simp
  have nd: "exec k (Next Done) s = call_next k s" for k and s :: "'a http_context_scheme exec_state"
    by (simp split: sum.splits)
  have c4: "\<exists>s'. run_chain ?hs c = Inr s' \<and> cursor s' \<le> i \<and> trace s' = [0..<Suc (cursor s')]
                  \<and> (handlers_m r (m @ ''+'' @ prefix_m r @ p) = None
                       \<and> status c = 404 \<and> http_method c = m \<and> path c = p \<longrightarrow>
                     routes (register_impl Td m p (hd args) (tl args) r) c = Inr (ctx s'))"
    if n: "args ! i = Member f None" and e: "\<forall>j<i. calls_at_most 1 (?hs ! j)"
  proof -
    have d: "?hs ! i = Done" using a[OF n assms(2)] .
    have li: "i < length ?hs" using assms(2) by simp
    have am: "\<And>j. j < i \<Longrightarrow> calls_at_most (Suc 0) (?hs ! j)" using e by simp
    obtain s' where s': "exec (Advance ?hs) (?hs ! 0) \<lparr>cursor = 0, ctx = c, trace = [0]\<rparr> = Inr s'"
      "cursor s' \<le> i" "trace s' = trace \<lparr>cursor = 0, ctx = c, trace = [0]\<rparr> @ [Suc 0..<Suc (cursor s')]"
      using chain_stops_at[OF d li am, of 0 "\<lparr>cursor = 0, ctx = c, trace = [0]\<rparr>"] by auto
    have t: "trace s' = [0..<Suc (cursor s')]"
      using s'(3) by (simp add: upt_conv_Cons)
    have r: "run_chain ?hs c = Inr s'" using run0 s'(1) by simp
    show ?thesis
      using r s'(2) t disp by auto
  qed
  have c5: "exec (Advance ?hs) (?hs ! i) s
              = exec (Advance ?hs) (?hs ! Suc i) (s\<lparr>cursor := Suc i, trace := trace s @ [Suc i]\<rparr>)"
    if "args ! i = Member_without_next g None" "Suc i < length args" "cursor s = i"
    using b[OF that(1,2)] that(2,3) by (simp split: sum.splits)
  show ?thesis
    using a[of i] b[of i] c1 c2 c3 c4 c5 nd assms(2) by simp
qed

theorem null_instance_in_chain_witness:
  "routes (get () ''/x''
       (Middleware (Upd (ctx_redirect ''/first'') (Next Done)))
       [Member (\<lambda>t. Upd (ctx_status 200) (Next Done)) None,
        Middleware (Upd (ctx_status 500) Done)] router_default)
     \<lparr>http_method = ''GET'', path = ''/x'', status = 404, redirect_target = ''''\<rparr>
   = Inr \<lparr>http_method = ''GET'', path = ''/x'', status = 404, redirect_target = ''/first''\<rparr>
   \<and> routes (get () ''/x''
       (Member_without_next (\<lambda>t. ctx_status 200) None)
       [Middleware (Upd (ctx_redirect ''/next'') Done)] router_default)
     \<lparr>http_method = ''GET'', path = ''/x'', status = 404, redirect_target = ''''\<rparr>
   = Inr \<lparr>http_method = ''GET'', path = ''/x'', status = 404, redirect_target = ''/next''\<rparr>"
  using null_instance_in_chain[where i = 1 and Td = "()" and r = router_default
      and m = "''GET''" and p = "''/x''"
      and args = "[Middleware (Upd (ctx_redirect ''/first'') (Next Done)),
                   Member (\<lambda>t. Upd (ctx_status 200) (Next Done)) None,
                   Middleware (Upd (ctx_status 500) Done)]"
      and f = "\<lambda>t. Upd (ctx_status 200) (Next Done)"
      and c = "\<lparr>http_method = ''GET'', path = ''/x'', status = 404, redirect_target = ''''\<rparr>"]
  by (simp add: router_default_def get_def routes_def make_routes_def register_impl_def compose_def
        emplace_def run_chain_def ctx_redirect_def)

text \<open>
  The claim as it was written fails in three ways. For a handler registered alone,
  \<^verbatim>\<open>register_with_next\<close> calls the member function on \<^verbatim>\<open>T{}\<close> when the instance pointer is
  null. A handler after the null one does run when an earlier handler calls its
  continuation a second time. And the closure pushed for a last handler without
  continuation never calls \<^verbatim>\<open>next\<close>: the cursor stays where the first handler left it.
\<close>

theorem null_instance_counterexample:
  "routes (get () ''/x'' (Member (\<lambda>t. Upd (ctx_status 200) Done) None) [] router_default)
     \<lparr>http_method = ''GET'', path = ''/x'', status = 404, redirect_target = ''''\<rparr>
   = Inr \<lparr>http_method = ''GET'', path = ''/x'', status = 200, redirect_target = ''''\<rparr>
   \<and> run_chain (register_multiple () []
         [Middleware (Next (Next Done)), Member (\<lambda>t. Upd (ctx_status 500) Done) None,
          Middleware (Upd (ctx_status 200) Done)])
       \<lparr>http_method = ''GET'', path = ''/x'', status = 404, redirect_target = ''''\<rparr>
     = Inr \<lparr>cursor = 2,
            ctx = \<lparr>http_method = ''GET'', path = ''/x'', status = 200, redirect_target = ''''\<rparr>,
            trace = [0, 1, 2]\<rparr>
   \<and> run_chain (register_multiple () [] [Middleware (Next Done), Member_without_next (\<lambda>t. ctx_status 200) None])
       \<lparr>http_method = ''GET'', path = ''/x'', status = 404, redirect_target = ''''\<rparr>
     = Inr \<lparr>cursor = 1,
            ctx = \<lparr>http_method = ''GET'', path = ''/x'', status = 404, redirect_target = ''''\<rparr>,
            trace = [0, 1]\<rparr>"
  by (simp add: router_default_def get_def routes_def make_routes_def register_impl_def
        register_with_next_member_def call_with_noop_def emplace_def run_chain_def ctx_status_def)

end
